theory Spec2Isabelle
  imports Main
begin

section \<open>Values and errors\<close>

text \<open>
  The module \<^verbatim>\<open>AMQPProcessManagerIPC.py\<close> moves JSON values between a worker process and
  its manager, one JSON array per line, over the worker's standard input and output.
  The values that travel are the ones Python's \<^verbatim>\<open>json\<close> module produces and accepts:
  \<^verbatim>\<open>None\<close>, booleans, integers, strings, lists and dictionaries with string keys.

  A string is a list of characters, each read as a code point below 256. A dictionary is
  the list of its items in iteration order; a Python dictionary holds each key once
  (\<open>wf_json\<close> below). Floating-point numbers are left out of the value type.
\<close>

datatype json =
    JNull
  | JBool bool
  | JInt int
  | JStr string
  | JArr "json list"
  | JObj "(string \<times> json) list"

text \<open>
  The exceptions the module can meet. \<open>Exception msg\<close> is the plain
  \<^verbatim>\<open>raise Exception('...')\<close> of \<^verbatim>\<open>receive_message\<close> and \<^verbatim>\<open>send_result\<close>; the others are
  raised by \<^verbatim>\<open>json.loads\<close> (\<open>ValueError\<close>, \<open>TypeError\<close>), by \<^verbatim>\<open>assert\<close>
  (\<open>AssertionError\<close>) and by the operations \<^verbatim>\<open>len\<close>, \<^verbatim>\<open>[0]\<close>, \<^verbatim>\<open>[1:]\<close> and
  \<^verbatim>\<open>.strip()\<close> applied to a value of the wrong type.
\<close>

datatype error =
    ValueError
  | AssertionError
  | TypeError
  | KeyError
  | IndexError
  | AttributeError
  | Exception string

abbreviation DQ :: char where "DQ \<equiv> CHR 0x22"
abbreviation BSL :: char where "BSL \<equiv> CHR 0x5C"
abbreviation NL :: char where "NL \<equiv> CHR 0x0A"

fun wf_json :: "json \<Rightarrow> bool" where
  "wf_json (JArr xs) = list_all wf_json xs"
| "wf_json (JObj kvs) = (distinct (map fst kvs) \<and> list_all (\<lambda>kv. wf_json (snd kv)) kvs)"
| "wf_json v = True"

section \<open>The json library: dumps\<close>

text \<open>
  \<^verbatim>\<open>json.dumps\<close> with its default settings: separators \<^verbatim>\<open>', '\<close> and \<^verbatim>\<open>': '\<close>,
  \<^verbatim>\<open>ensure_ascii=True\<close>. Inside a string, the backslash, the double quote and every
  character outside the range from space to tilde are escaped; the short escapes are
  those of the encoder's table, every other one is \<^verbatim>\<open>\u00xx\<close> in lower-case hexadecimal.
\<close>

definition hex_digit :: "nat \<Rightarrow> char" where
  "hex_digit n = (if n < 10 then char_of (48 + n) else char_of (87 + n))"

definition escape_char :: "char \<Rightarrow> string" where
  "escape_char c =
     (if c = BSL then [BSL, BSL]
      else if c = DQ then [BSL, DQ]
      else if c = CHR 0x08 then [BSL, CHR ''b'']
      else if c = CHR 0x0C then [BSL, CHR ''f'']
      else if c = NL then [BSL, CHR ''n'']
      else if c = CHR 0x0D then [BSL, CHR ''r'']
      else if c = CHR 0x09 then [BSL, CHR ''t'']
      else if 0x20 \<le> (of_char c :: nat) \<and> (of_char c :: nat) \<le> 0x7E then [c]
      else [BSL, CHR ''u'', CHR ''0'', CHR ''0'',
            hex_digit ((of_char c :: nat) div 16), hex_digit ((of_char c :: nat) mod 16)])"

definition encode_basestring_ascii :: "string \<Rightarrow> string" where
  "encode_basestring_ascii s = DQ # concat (map escape_char s) @ [DQ]"

fun digits10 :: "nat \<Rightarrow> string" where
  "digits10 n =
     (if n < 10 then [char_of (48 + n)]
      else digits10 (n div 10) @ [char_of (48 + n mod 10)])"

declare digits10.simps [simp del]

definition int_str :: "int \<Rightarrow> string" where
  "int_str i = (if i < 0 then CHR ''-'' # digits10 (nat (- i)) else digits10 (nat i))"

fun join_str :: "string \<Rightarrow> string list \<Rightarrow> string" where
  "join_str sep [] = []"
| "join_str sep [x] = x"
| "join_str sep (x # y # ys) = x @ sep @ join_str sep (y # ys)"

fun json_dumps :: "json \<Rightarrow> string" where
  "json_dumps JNull = ''null''"
| "json_dumps (JBool b) = (if b then ''true'' else ''false'')"
| "json_dumps (JInt i) = int_str i"
| "json_dumps (JStr s) = encode_basestring_ascii s"
| "json_dumps (JArr xs) = ''['' @ join_str '', '' (map json_dumps xs) @ '']''"
| "json_dumps (JObj kvs) =
     ''{'' @ join_str '', ''
              (map (\<lambda>kv. encode_basestring_ascii (fst kv) @ '': '' @ json_dumps (snd kv)) kvs)
       @ ''}''"

section \<open>The json library: loads\<close>

text \<open>
  \<^verbatim>\<open>json.loads\<close> is the decoder's recursive descent: \<^verbatim>\<open>scan_once\<close> looks at the next
  character and hands over to \<^verbatim>\<open>scanstring\<close>, \<^verbatim>\<open>JSONObject\<close>, \<^verbatim>\<open>JSONArray\<close>, a literal
  or the number pattern. Each function returns the value and the text after it;
  \<open>None\<close> is the decoder's \<^verbatim>\<open>ValueError\<close>. White space is blank, tab, line feed and
  carriage return.

  Outside the value type, so \<open>None\<close> here: number literals with a fraction or an
  exponent, \<^verbatim>\<open>NaN\<close> and \<^verbatim>\<open>Infinity\<close> (floats in Python), and \<^verbatim>\<open>\uXXXX\<close> escapes from 256
  upwards. Input text is read character by character; the UTF-8 decoding of bytes
  above 127 is not modelled.
\<close>

definition is_ws :: "char \<Rightarrow> bool" where
  "is_ws c \<longleftrightarrow> c = CHR '' '' \<or> c = CHR 0x09 \<or> c = NL \<or> c = CHR 0x0D"

definition skip_ws :: "string \<Rightarrow> string" where
  "skip_ws s = dropWhile is_ws s"

definition is_digit :: "char \<Rightarrow> bool" where
  "is_digit c \<longleftrightarrow> 48 \<le> (of_char c :: nat) \<and> (of_char c :: nat) \<le> 57"

definition hex_val :: "char \<Rightarrow> nat option" where
  "hex_val c =
     (let n = (of_char c :: nat) in
      if 48 \<le> n \<and> n \<le> 57 then Some (n - 48)
      else if 97 \<le> n \<and> n \<le> 102 then Some (n - 87)
      else if 65 \<le> n \<and> n \<le> 70 then Some (n - 55)
      else None)"

definition hex4 :: "char \<Rightarrow> char \<Rightarrow> char \<Rightarrow> char \<Rightarrow> nat option" where
  "hex4 a b c d =
     (case (hex_val a, hex_val b, hex_val c, hex_val d) of
        (Some w, Some x, Some y, Some z) \<Rightarrow> Some (((w * 16 + x) * 16 + y) * 16 + z)
      | _ \<Rightarrow> None)"

text \<open>The decoder's table \<^verbatim>\<open>BACKSLASH\<close> of one-letter escapes.\<close>

definition unescape :: "char \<Rightarrow> char option" where
  "unescape e =
     (if e = DQ then Some DQ
      else if e = BSL then Some BSL
      else if e = CHR ''/'' then Some (CHR ''/'')
      else if e = CHR ''b'' then Some (CHR 0x08)
      else if e = CHR ''f'' then Some (CHR 0x0C)
      else if e = CHR ''n'' then Some NL
      else if e = CHR ''r'' then Some (CHR 0x0D)
      else if e = CHR ''t'' then Some (CHR 0x09)
      else None)"

definition cons_char :: "char \<Rightarrow> (string \<times> string) option \<Rightarrow> (string \<times> string) option" where
  "cons_char c res = (case res of None \<Rightarrow> None | Some (s, r) \<Rightarrow> Some (c # s, r))"

text \<open>
  \<^verbatim>\<open>scanstring\<close> starts after the opening quote and runs to the closing one. In strict
  mode (the default) a raw control character inside the string is an error.
\<close>

fun scanstring :: "string \<Rightarrow> (string \<times> string) option" where
  "scanstring [] = None"
| "scanstring (c # cs) =
     (if c = DQ then Some ([], cs)
      else if c = BSL then
        (case cs of
           [] \<Rightarrow> None
         | e # cs1 \<Rightarrow>
             if e = CHR ''u'' then
               (case cs1 of
                  h1 # h2 # h3 # h4 # cs2 \<Rightarrow>
                    (case hex4 h1 h2 h3 h4 of
                       None \<Rightarrow> None
                     | Some n \<Rightarrow> if n < 256 then cons_char (char_of n) (scanstring cs2) else None)
                | _ \<Rightarrow> None)
             else
               (case unescape e of
                  None \<Rightarrow> None
                | Some ch \<Rightarrow> cons_char ch (scanstring cs1)))
      else if (of_char c :: nat) < 0x20 then None
      else cons_char c (scanstring cs))"

text \<open>
  The number pattern \<^verbatim>\<open>(-?(?:0|[1-9]\d*))(\.\d+)?([eE][-+]?\d+)?\<close>: \<open>match_integer\<close>
  is its first group without the sign, \<open>is_float_tail\<close> says that the second or the
  third group matches.
\<close>

definition nat_of_digits :: "string \<Rightarrow> nat" where
  "nat_of_digits ds = foldl (\<lambda>a c. 10 * a + ((of_char c :: nat) - 48)) 0 ds"

definition match_integer :: "string \<Rightarrow> (string \<times> string) option" where
  "match_integer s =
     (case s of
        [] \<Rightarrow> None
      | d # ds \<Rightarrow>
          if d = CHR ''0'' then Some ([d], ds)
          else if is_digit d then Some (d # takeWhile is_digit ds, dropWhile is_digit ds)
          else None)"

definition is_float_tail :: "string \<Rightarrow> bool" where
  "is_float_tail s =
     (case s of
        [] \<Rightarrow> False
      | c # cs \<Rightarrow>
          if c = CHR ''.'' then (case cs of [] \<Rightarrow> False | d # _ \<Rightarrow> is_digit d)
          else if c = CHR ''e'' \<or> c = CHR ''E'' then
            (case cs of
               [] \<Rightarrow> False
             | d # ds \<Rightarrow>
                 if d = CHR ''-'' \<or> d = CHR ''+'' then (case ds of [] \<Rightarrow> False | d' # _ \<Rightarrow> is_digit d')
                 else is_digit d)
          else False)"

definition match_number :: "string \<Rightarrow> (json \<times> string) option" where
  "match_number s =
     (let neg = (case s of [] \<Rightarrow> False | c # _ \<Rightarrow> c = CHR ''-'');
          s1 = (if neg then tl s else s)
      in case match_integer s1 of
           None \<Rightarrow> None
         | Some (ds, r) \<Rightarrow>
             if is_float_tail r then None
             else Some (JInt (if neg then - int (nat_of_digits ds) else int (nat_of_digits ds)), r))"

definition scan_atom :: "string \<Rightarrow> (json \<times> string) option" where
  "scan_atom s =
     (if take 4 s = ''null'' then Some (JNull, drop 4 s)
      else if take 4 s = ''true'' then Some (JBool True, drop 4 s)
      else if take 5 s = ''false'' then Some (JBool False, drop 5 s)
      else match_number s)"

text \<open>
  \<^verbatim>\<open>JSONObject\<close> collects the pairs and returns \<^verbatim>\<open>dict(pairs)\<close>: a key that comes again
  replaces the earlier value.
\<close>

fun dict_set :: "string \<Rightarrow> json \<Rightarrow> (string \<times> json) list \<Rightarrow> (string \<times> json) list" where
  "dict_set k v [] = [(k, v)]"
| "dict_set k v (p # ps) = (if fst p = k then (k, v) # ps else p # dict_set k v ps)"

definition dict_of_pairs :: "(string \<times> json) list \<Rightarrow> (string \<times> json) list" where
  "dict_of_pairs pairs = foldl (\<lambda>d kv. dict_set (fst kv) (snd kv) d) [] pairs"

text \<open>
  The first argument bounds the depth of the calls, so that the recursion is structural;
  \<open>json_loads\<close> gives more than the text can use (\<open>parse_value_fuel\<close> below).
\<close>

fun parse_value :: "nat \<Rightarrow> string \<Rightarrow> (json \<times> string) option"
  and parse_array_items :: "nat \<Rightarrow> string \<Rightarrow> (json list \<times> string) option"
  and parse_object_items :: "nat \<Rightarrow> string \<Rightarrow> ((string \<times> json) list \<times> string) option"
where
  "parse_value 0 s = None"
| "parse_value (Suc n) [] = None"
| "parse_value (Suc n) (c # cs) =
     (if c = DQ then
        (case scanstring cs of None \<Rightarrow> None | Some (x, r) \<Rightarrow> Some (JStr x, r))
      else if c = CHR ''{'' then
        (case skip_ws cs of
           [] \<Rightarrow> None
         | d # ds \<Rightarrow>
             if d = CHR ''}'' then Some (JObj [], ds)
             else (case parse_object_items n (d # ds) of
                     None \<Rightarrow> None
                   | Some (kvs, r) \<Rightarrow> Some (JObj (dict_of_pairs kvs), r)))
      else if c = CHR ''['' then
        (case skip_ws cs of
           [] \<Rightarrow> None
         | d # ds \<Rightarrow>
             if d = CHR '']'' then Some (JArr [], ds)
             else (case parse_array_items n (d # ds) of
                     None \<Rightarrow> None
                   | Some (vs, r) \<Rightarrow> Some (JArr vs, r)))
      else scan_atom (c # cs))"
| "parse_array_items 0 s = None"
| "parse_array_items (Suc n) s =
     (case parse_value n s of
        None \<Rightarrow> None
      | Some (v, r) \<Rightarrow>
          (case skip_ws r of
             [] \<Rightarrow> None
           | d # ds \<Rightarrow>
               if d = CHR '']'' then Some ([v], ds)
               else if d = CHR '','' then
                 (case parse_array_items n (skip_ws ds) of
                    None \<Rightarrow> None
                  | Some (vs, r') \<Rightarrow> Some (v # vs, r'))
               else None))"
| "parse_object_items 0 s = None"
| "parse_object_items (Suc n) s =
     (case s of
        [] \<Rightarrow> None
      | q # cs \<Rightarrow>
          if q \<noteq> DQ then None
          else
            (case scanstring cs of
               None \<Rightarrow> None
             | Some (key, r) \<Rightarrow>
                 (case skip_ws r of
                    [] \<Rightarrow> None
                  | col # r1 \<Rightarrow>
                      if col \<noteq> CHR '':'' then None
                      else
                        (case parse_value n (skip_ws r1) of
                           None \<Rightarrow> None
                         | Some (v, r2) \<Rightarrow>
                             (case skip_ws r2 of
                                [] \<Rightarrow> None
                              | d # ds \<Rightarrow>
                                  if d = CHR ''}'' then Some ([(key, v)], ds)
                                  else if d = CHR '','' then
                                    (case parse_object_items n (skip_ws ds) of
                                       None \<Rightarrow> None
                                     | Some (kvs, r3) \<Rightarrow> Some ((key, v) # kvs, r3))
                                  else None)))))"

text \<open>
  \<^verbatim>\<open>JSONDecoder.decode\<close>: white space, one value, white space, end of text; anything
  left over is \<^verbatim>\<open>ValueError("Extra data")\<close>.
\<close>

definition json_loads :: "string \<Rightarrow> error + json" where
  "json_loads s =
     (case parse_value (2 * length s + 2) (skip_ws s) of
        None \<Rightarrow> Inl ValueError
      | Some (v, r) \<Rightarrow> if skip_ws r = [] then Inr v else Inl ValueError)"

section \<open>Decoding what dumps wrote\<close>

subsection \<open>Strings and numbers\<close>

lemma char_of_nat_eq: "char_of (n::nat) = c \<longleftrightarrow> n mod 256 = of_char c"
  by (simp add: char_of_eq_iff take_bit_eq_mod)

lemma hex_val_hex_digit: "k < 16 \<Longrightarrow> hex_val (hex_digit k) = Some k"
  by (auto simp: hex_val_def hex_digit_def Let_def)

lemma hex4_escape:
  "hex4 (CHR ''0'') (CHR ''0'') (hex_digit ((of_char c :: nat) div 16)) (hex_digit ((of_char c :: nat) mod 16))
     = Some (of_char c)"
proof -
  have d: "(of_char c :: nat) div 16 < 16"
    using nat_of_char_less_256 [of c] by arith
  have z: "hex_val (CHR ''0'') = Some 0" by (simp add: hex_val_def)
  show ?thesis
    by (simp add: hex4_def z hex_val_hex_digit d)
qed

lemma scanstring_escape_char:
  "scanstring (escape_char c @ t) = cons_char c (scanstring t)"
  by (simp add: escape_char_def unescape_def hex4_escape)

lemma scanstring_escaped:
  "scanstring (concat (map escape_char s) @ DQ # rest) = Some (s, rest)"
  by (induction s) (simp_all add: scanstring_escape_char cons_char_def)


lemma digits10_nonempty: "digits10 n \<noteq> []"
  by (subst digits10.simps) simp

lemma digits10_all_digits: "list_all is_digit (digits10 n)"
proof (induction n rule: digits10.induct)
  case (1 n)
  show ?case
  proof (cases "n < 10")
    case True
    then show ?thesis by (subst digits10.simps) (simp add: is_digit_def)
  next
    case False
    with "1.IH" have "list_all is_digit (digits10 (n div 10))" by simp
    moreover have "n mod 10 < 10" by simp
    ultimately show ?thesis using False
      by (subst digits10.simps) (simp add: is_digit_def)
  qed
qed

lemma nat_of_digits_snoc:
  "nat_of_digits (ds @ [c]) = 10 * nat_of_digits ds + ((of_char c :: nat) - 48)"
  by (simp add: nat_of_digits_def)

lemma nat_of_digits_digits10: "nat_of_digits (digits10 n) = n"
proof (induction n rule: digits10.induct)
  case (1 n)
  show ?case
  proof (cases "n < 10")
    case True
    then show ?thesis by (subst digits10.simps) (simp add: nat_of_digits_def)
  next
    case False
    with "1.IH" have "nat_of_digits (digits10 (n div 10)) = n div 10" by simp
    moreover have "n mod 10 < 10" by simp
    ultimately show ?thesis using False
      by (subst digits10.simps) (simp add: nat_of_digits_snoc)
  qed
qed

lemma digit_char_zero: "(n::nat) < 10 \<Longrightarrow> char_of (48 + n) = CHR ''0'' \<Longrightarrow> n = 0"
proof -
  assume n: "n < 10" and eq: "char_of (48 + n) = CHR ''0''"
  from eq have "(of_char (char_of (48 + n)) :: nat) = of_char (CHR ''0'')" by simp
  with n show "n = 0" by simp
qed

lemma digits10_hd: "hd (digits10 n) = CHR ''0'' \<Longrightarrow> n = 0"
proof (induction n rule: digits10.induct)
  case (1 n)
  show ?case
  proof (cases "n < 10")
    case True
    with "1.prems" show ?thesis
      by (subst (asm) digits10.simps) (auto dest: digit_char_zero)
  next
    case False
    with "1.prems" have "hd (digits10 (n div 10)) = CHR ''0''"
      by (subst (asm) digits10.simps) (simp add: digits10_nonempty)
    with "1.IH" False have "n div 10 = 0" by simp
    with False show ?thesis by simp
  qed
qed

definition number_ends :: "string \<Rightarrow> bool" where
  "number_ends rest \<longleftrightarrow> (case rest of [] \<Rightarrow> True | c # _ \<Rightarrow> \<not> is_digit c \<and> c \<noteq> CHR ''.'' \<and> c \<noteq> CHR ''e'' \<and> c \<noteq> CHR ''E'')"

lemma number_ends_float_tail: "number_ends rest \<Longrightarrow> \<not> is_float_tail rest"
  by (auto simp: number_ends_def is_float_tail_def split: list.splits)

lemma takeWhile_digits: 
  "list_all is_digit ds \<Longrightarrow> number_ends rest \<Longrightarrow> takeWhile is_digit (ds @ rest) = ds"
  by (induction ds) (auto simp: number_ends_def split: list.splits)

lemma dropWhile_digits: 
  "list_all is_digit ds \<Longrightarrow> number_ends rest \<Longrightarrow> dropWhile is_digit (ds @ rest) = rest"
  by (induction ds) (auto simp: number_ends_def split: list.splits)

lemma match_integer_digits10:
  assumes "number_ends rest"
  shows "match_integer (digits10 n @ rest) = Some (digits10 n, rest)"
proof -
  obtain d ds where dd: "digits10 n = d # ds"
    using digits10_nonempty [of n] by (cases "digits10 n") auto
  have alld: "is_digit d \<and> list_all is_digit ds"
    using digits10_all_digits [of n] dd by simp
  show ?thesis
  proof (cases "d = CHR ''0''")
    case True
    with dd digits10_hd [of n] have "n = 0" by simp
    then have "digits10 n = ''0''" by (subst digits10.simps) (simp add: char_of_nat_eq)
    then show ?thesis by (simp add: match_integer_def)
  next
    case False
    with dd alld assms show ?thesis
      by (simp add: match_integer_def takeWhile_digits dropWhile_digits)
  qed
qed

lemma digits10_no_minus: "hd (digits10 n) \<noteq> CHR ''-''"
  using digits10_all_digits [of n] digits10_nonempty [of n]
  by (cases "digits10 n") (auto simp: is_digit_def)

lemma match_number_int_str:
  assumes "number_ends rest"
  shows "match_number (int_str i @ rest) = Some (JInt i, rest)"
proof (cases "i < 0")
  case True
  then show ?thesis
    using assms
    by (simp add: match_number_def int_str_def match_integer_digits10 number_ends_float_tail
        nat_of_digits_digits10)
next
  case False
  obtain d ds where dd: "digits10 (nat i) = d # ds"
    using digits10_nonempty [of "nat i"] by (cases "digits10 (nat i)") auto
  with digits10_no_minus [of "nat i"] have "d \<noteq> CHR ''-''" by simp
  with False dd have "(case int_str i @ rest of [] \<Rightarrow> False | c # _ \<Rightarrow> c = CHR ''-'') = False"
    by (simp add: int_str_def)
  then show ?thesis
    using assms False match_integer_digits10 [OF assms, of "nat i"]
    by (simp add: match_number_def int_str_def number_ends_float_tail nat_of_digits_digits10)
qed


lemma parse_value_atom:
  "c \<noteq> DQ \<Longrightarrow> c \<noteq> CHR ''{'' \<Longrightarrow> c \<noteq> CHR ''['' \<Longrightarrow> parse_value (Suc n) (c # cs) = scan_atom (c # cs)"
  by simp

lemma parse_value_string:
  "parse_value (Suc n) (DQ # cs) =
     (case scanstring cs of None \<Rightarrow> None | Some (x, r) \<Rightarrow> Some (JStr x, r))"
  by simp

lemma parse_value_array:
  "parse_value (Suc n) (CHR ''['' # cs) =
     (case skip_ws cs of
        [] \<Rightarrow> None
      | d # ds \<Rightarrow>
          if d = CHR '']'' then Some (JArr [], ds)
          else (case parse_array_items n (d # ds) of
                  None \<Rightarrow> None
                | Some (vs, r) \<Rightarrow> Some (JArr vs, r)))"
  by simp

lemma parse_value_object:
  "parse_value (Suc n) (CHR ''{'' # cs) =
     (case skip_ws cs of
        [] \<Rightarrow> None
      | d # ds \<Rightarrow>
          if d = CHR ''}'' then Some (JObj [], ds)
          else (case parse_object_items n (d # ds) of
                  None \<Rightarrow> None
                | Some (kvs, r) \<Rightarrow> Some (JObj (dict_of_pairs kvs), r)))"
  by simp

declare parse_value.simps [simp del] parse_array_items.simps [simp del]
  parse_object_items.simps [simp del]

lemma scan_atom_number:
  "c \<noteq> CHR ''n'' \<Longrightarrow> c \<noteq> CHR ''t'' \<Longrightarrow> c \<noteq> CHR ''f'' \<Longrightarrow> scan_atom (c # cs) = match_number (c # cs)"
  by (simp add: scan_atom_def)

lemma number_start_distinct:
  assumes "is_digit c \<or> c = CHR ''-''"
  shows "c \<noteq> DQ" "c \<noteq> CHR ''{''" "c \<noteq> CHR ''[''" "c \<noteq> CHR ''n''" "c \<noteq> CHR ''t''"
    "c \<noteq> CHR ''f''" "c \<noteq> CHR '']''" "c \<noteq> CHR ''}''" "\<not> is_ws c"
  using assms by (auto simp: is_digit_def is_ws_def)

lemma int_str_hd:
  obtains c cs where "int_str i = c # cs" and "is_digit c \<or> c = CHR ''-''"
proof (cases "i < 0")
  case True
  then have "int_str i = CHR ''-'' # digits10 (nat (- i))" by (simp add: int_str_def)
  then show ?thesis using that by blast
next
  case False
  obtain d ds where dd: "digits10 (nat i) = d # ds"
    using digits10_nonempty [of "nat i"] by (cases "digits10 (nat i)") auto
  with digits10_all_digits [of "nat i"] have "is_digit d" by simp
  with False dd show ?thesis using that by (simp add: int_str_def)
qed

lemma parse_value_int_str:
  assumes "number_ends rest"
  shows "parse_value (Suc n) (int_str i @ rest) = Some (JInt i, rest)"
proof -
  obtain c cs where cc: "int_str i = c # cs" and c: "is_digit c \<or> c = CHR ''-''"
    by (rule int_str_hd)
  have "parse_value (Suc n) (c # cs @ rest) = match_number (c # cs @ rest)"
    using number_start_distinct [OF c] by (simp add: parse_value_atom scan_atom_number)
  with cc match_number_int_str [OF assms, of i] show ?thesis by simp
qed

subsection \<open>Arrays, objects and whole values\<close>

definition starts_value :: "string \<Rightarrow> bool" where
  "starts_value s \<longleftrightarrow>
     (case s of [] \<Rightarrow> False | c # _ \<Rightarrow> \<not> is_ws c \<and> c \<noteq> CHR '']'' \<and> c \<noteq> CHR ''}'')"

lemma starts_value_skip_ws: "starts_value s \<Longrightarrow> skip_ws s = s"
  by (cases s) (simp_all add: starts_value_def skip_ws_def)

lemma starts_value_dumps: "starts_value (json_dumps v @ t)"
proof (cases v)
  case (JInt i)
  obtain c cs where cc: "int_str i = c # cs" and c: "is_digit c \<or> c = CHR ''-''"
    by (rule int_str_hd)
  with JInt number_start_distinct [OF c] show ?thesis by (simp add: starts_value_def)
qed (simp_all add: starts_value_def is_ws_def encode_basestring_ascii_def)

lemma join_str_Cons:
  "join_str sep (x # xs) = x @ (if xs = [] then [] else sep @ join_str sep xs)"
  by (cases xs) simp_all

lemma starts_value_join:
  "xs \<noteq> [] \<Longrightarrow> starts_value (join_str sep (map json_dumps xs) @ t)"
  by (cases xs) (simp_all add: join_str_Cons starts_value_dumps)

lemma skip_ws_simps:
  "skip_ws (CHR '']'' # t) = CHR '']'' # t"
  "skip_ws (CHR ''}'' # t) = CHR ''}'' # t"
  "skip_ws (CHR '','' # t) = CHR '','' # t"
  "skip_ws (CHR '':'' # t) = CHR '':'' # t"
  "skip_ws (DQ # t) = DQ # t"
  "skip_ws (CHR '' '' # t) = skip_ws t"
  "skip_ws (NL # t) = skip_ws t"
  "skip_ws [] = []"
  by (simp_all add: skip_ws_def is_ws_def)

lemma number_ends_simps:
  "number_ends []"
  "number_ends (CHR '']'' # t)"
  "number_ends (CHR ''}'' # t)"
  "number_ends (CHR '','' # t)"
  "number_ends (NL # t)"
  by (simp_all add: number_ends_def is_digit_def)

lemma parse_array_items_dumps:
  assumes IH: "\<And>x n rest. x \<in> set xs \<Longrightarrow> number_ends rest \<Longrightarrow>
                 2 * length (json_dumps x @ rest) < n \<Longrightarrow>
                 parse_value n (json_dumps x @ rest) = Some (x, rest)"
    and ne: "xs \<noteq> []"
    and fuel: "2 * length (join_str '', '' (map json_dumps xs) @ CHR '']'' # rest) + 1 < m"
  shows "parse_array_items m (join_str '', '' (map json_dumps xs) @ CHR '']'' # rest)
           = Some (xs, rest)"
  using assms
proof (induction xs arbitrary: m)
  case Nil
  then show ?case by simp
next
  case (Cons x xs)
  from Cons.prems(3) obtain m' where m: "m = Suc m'" by (cases m) auto
  show ?case
  proof (cases "xs = []")
    case True
    have "parse_value m' (json_dumps x @ CHR '']'' # rest) = Some (x, CHR '']'' # rest)"
      using Cons.prems(3) m True
      by (intro Cons.prems(1)) (simp_all add: number_ends_simps)
    with True m show ?thesis by (simp add: skip_ws_simps parse_array_items.simps)
  next
    case False
    let ?tail = "join_str '', '' (map json_dumps xs) @ CHR '']'' # rest"
    have str: "join_str '', '' (map json_dumps (x # xs)) @ CHR '']'' # rest
                 = json_dumps x @ CHR '','' # CHR '' '' # ?tail"
      using False by (simp add: join_str_Cons)
    have "parse_value m' (json_dumps x @ CHR '','' # CHR '' '' # ?tail)
            = Some (x, CHR '','' # CHR '' '' # ?tail)"
      using Cons.prems(3) m str
      by (intro Cons.prems(1)) (simp_all add: number_ends_simps)
    moreover have "parse_array_items m' ?tail = Some (xs, rest)"
      using Cons.prems(1,3) m str False
      by (intro Cons.IH) simp_all
    moreover have "skip_ws ?tail = ?tail"
      using False by (intro starts_value_skip_ws starts_value_join)
    ultimately show ?thesis
      using m str by (simp add: skip_ws_simps parse_array_items.simps)
  qed
qed


lemma dict_set_fresh: "k \<notin> fst ` set d \<Longrightarrow> dict_set k v d = d @ [(k, v)]"
  by (induction d) auto

lemma foldl_dict_set_distinct:
  "distinct (map fst (d @ kvs)) \<Longrightarrow>
     foldl (\<lambda>d kv. dict_set (fst kv) (snd kv) d) d kvs = d @ kvs"
proof (induction kvs arbitrary: d)
  case Nil
  then show ?case by simp
next
  case (Cons kv kvs)
  from Cons.prems have fresh: "fst kv \<notin> fst ` set d" by auto
  from Cons.prems have "distinct (map fst ((d @ [kv]) @ kvs))" by simp
  then have "foldl (\<lambda>d kv. dict_set (fst kv) (snd kv) d) (d @ [kv]) kvs = (d @ [kv]) @ kvs"
    by (rule Cons.IH)
  with fresh show ?case by (simp add: dict_set_fresh)
qed

lemma dict_of_pairs_distinct: "distinct (map fst kvs) \<Longrightarrow> dict_of_pairs kvs = kvs"
  using foldl_dict_set_distinct [of "[]" kvs] by (simp add: dict_of_pairs_def)

definition dumps_item :: "string \<times> json \<Rightarrow> string" where
  "dumps_item kv = encode_basestring_ascii (fst kv) @ '': '' @ json_dumps (snd kv)"

lemma dumps_item_unfold:
  "dumps_item kv @ t =
     DQ # concat (map escape_char (fst kv)) @ DQ # CHR '':'' # CHR '' '' # json_dumps (snd kv) @ t"
  by (simp add: dumps_item_def encode_basestring_ascii_def)

lemma parse_object_items_step:
  assumes v: "parse_value m (json_dumps v @ t) = Some (v, t)"
  shows "parse_object_items (Suc m) (dumps_item (k, v) @ t) =
     (case skip_ws t of
        [] \<Rightarrow> None
      | d # ds \<Rightarrow>
          if d = CHR ''}'' then Some ([(k, v)], ds)
          else if d = CHR '','' then
            (case parse_object_items m (skip_ws ds) of
               None \<Rightarrow> None
             | Some (kvs, r3) \<Rightarrow> Some ((k, v) # kvs, r3))
          else None)"
proof -
  have "skip_ws (json_dumps v @ t) = json_dumps v @ t"
    by (intro starts_value_skip_ws starts_value_dumps)
  with v show ?thesis
    by (simp add: dumps_item_unfold parse_object_items.simps scanstring_escaped skip_ws_simps)
qed

lemma skip_ws_dumps_item: "skip_ws (dumps_item kv @ t) = dumps_item kv @ t"
  by (simp add: dumps_item_unfold skip_ws_simps)

lemma parse_object_items_dumps:
  assumes IH: "\<And>k v n rest. (k, v) \<in> set kvs \<Longrightarrow> number_ends rest \<Longrightarrow>
                 2 * length (json_dumps v @ rest) < n \<Longrightarrow>
                 parse_value n (json_dumps v @ rest) = Some (v, rest)"
    and ne: "kvs \<noteq> []"
    and fuel: "2 * length (join_str '', '' (map dumps_item kvs) @ CHR ''}'' # rest) < m"
  shows "parse_object_items m (join_str '', '' (map dumps_item kvs) @ CHR ''}'' # rest)
           = Some (kvs, rest)"
  using assms
proof (induction kvs arbitrary: m)
  case Nil
  then show ?case by simp
next
  case (Cons kv kvs)
  obtain k v where kv: "kv = (k, v)" by (cases kv)
  from Cons.prems(3) obtain m' where m: "m = Suc m'" by (cases m) auto
  show ?case
  proof (cases "kvs = []")
    case True
    have "length (json_dumps v) + 4 \<le> length (dumps_item (k, v))"
      by (simp add: dumps_item_def encode_basestring_ascii_def)
    with Cons.prems(3) m True kv have "2 * length (json_dumps v @ CHR ''}'' # rest) < m'"
      by simp
    then have "parse_value m' (json_dumps v @ CHR ''}'' # rest) = Some (v, CHR ''}'' # rest)"
      using kv by (intro Cons.prems(1) [of k]) (simp_all add: number_ends_simps)
    from parse_object_items_step [OF this, of k] True m kv show ?thesis
      by (simp add: skip_ws_simps)
  next
    case False
    let ?tail = "join_str '', '' (map dumps_item kvs) @ CHR ''}'' # rest"
    have str: "join_str '', '' (map dumps_item (kv # kvs)) @ CHR ''}'' # rest
                 = dumps_item (k, v) @ CHR '','' # CHR '' '' # ?tail"
      using False kv by (simp add: join_str_Cons)
    have "length (json_dumps v) + 4 \<le> length (dumps_item (k, v))"
      by (simp add: dumps_item_def encode_basestring_ascii_def)
    with Cons.prems(3) m have fuel_v:
      "2 * length (json_dumps v @ CHR '','' # CHR '' '' # ?tail) < m'"
      and fuel_t: "2 * length ?tail < m'"
      unfolding str by simp_all
    have "parse_value m' (json_dumps v @ CHR '','' # CHR '' '' # ?tail)
            = Some (v, CHR '','' # CHR '' '' # ?tail)"
      using kv fuel_v by (intro Cons.prems(1) [of k]) (simp_all add: number_ends_simps)
    note step = parse_object_items_step [OF this, of k]
    have "parse_object_items m' ?tail = Some (kvs, rest)"
    proof (rule Cons.IH)
      show "parse_value n (json_dumps v' @ rest') = Some (v', rest')"
        if "(k', v') \<in> set kvs" "number_ends rest'" "2 * length (json_dumps v' @ rest') < n"
        for k' v' n rest'
        using that by (intro Cons.prems(1) [of k']) simp_all
    qed (use False fuel_t in simp_all)
    moreover have "skip_ws ?tail = ?tail"
      using False by (cases kvs) (simp_all add: join_str_Cons skip_ws_dumps_item)
    ultimately show ?thesis
      using m str step kv by (simp add: skip_ws_simps)
  qed
qed

lemma json_dumps_JObj:
  "json_dumps (JObj kvs) = CHR ''{'' # join_str '', '' (map dumps_item kvs) @ ''}''"
proof -
  have "(\<lambda>kv. encode_basestring_ascii (fst kv) @ '': '' @ json_dumps (snd kv)) = dumps_item"
    by (rule ext) (simp add: dumps_item_def)
  then show ?thesis by simp
qed

declare json_dumps.simps(6) [simp del]

lemma starts_value_join_items:
  "kvs \<noteq> [] \<Longrightarrow> starts_value (join_str '', '' (map dumps_item kvs) @ t)"
  by (cases kvs) (simp_all add: join_str_Cons dumps_item_unfold starts_value_def is_ws_def)

lemma starts_value_Cons:
  "starts_value s \<Longrightarrow> \<exists>d ds. s = d # ds \<and> d \<noteq> CHR '']'' \<and> d \<noteq> CHR ''}''"
  by (cases s) (simp_all add: starts_value_def)

lemma parse_value_dumps:
  "wf_json v \<Longrightarrow> number_ends rest \<Longrightarrow> 2 * length (json_dumps v @ rest) < n \<Longrightarrow>
     parse_value n (json_dumps v @ rest) = Some (v, rest)"
proof (induction v arbitrary: n rest)
  case JNull
  then obtain n' where "n = Suc n'" by (cases n) auto
  then show ?case by (simp add: parse_value_atom scan_atom_def)
next
  case (JBool b)
  then obtain n' where "n = Suc n'" by (cases n) auto
  then show ?case by (simp add: parse_value_atom scan_atom_def)
next
  case (JInt i)
  then obtain n' where "n = Suc n'" by (cases n) auto
  with JInt.prems show ?case by (simp add: parse_value_int_str)
next
  case (JStr s)
  then obtain n' where "n = Suc n'" by (cases n) auto
  then show ?case
    by (simp add: parse_value_string encode_basestring_ascii_def scanstring_escaped)
next
  case (JArr xs)
  from JArr.prems obtain n' where n: "n = Suc n'" by (cases n) auto
  show ?case
  proof (cases "xs = []")
    case True
    with n show ?thesis by (simp add: parse_value_array skip_ws_simps)
  next
    case False
    let ?body = "join_str '', '' (map json_dumps xs) @ CHR '']'' # rest"
    have items: "parse_array_items n' ?body = Some (xs, rest)"
    proof (rule parse_array_items_dumps)
      show "parse_value m (json_dumps x @ r) = Some (x, r)"
        if "x \<in> set xs" "number_ends r" "2 * length (json_dumps x @ r) < m" for x m r
        using that JArr.prems(1) by (intro JArr.IH) (simp_all add: list_all_iff)
    qed (use False JArr.prems(3) n in simp_all)
    have sv: "starts_value ?body" using False by (rule starts_value_join)
    from starts_value_Cons [OF sv] obtain d ds where
      d: "?body = d # ds" "d \<noteq> CHR '']''" by blast
    from sv have "skip_ws ?body = ?body" by (rule starts_value_skip_ws)
    with d items n show ?thesis by (simp add: parse_value_array)
  qed
next
  case (JObj kvs)
  from JObj.prems obtain n' where n: "n = Suc n'" by (cases n) auto
  show ?case
  proof (cases "kvs = []")
    case True
    with n show ?thesis by (simp add: json_dumps_JObj parse_value_object skip_ws_simps)
  next
    case False
    let ?body = "join_str '', '' (map dumps_item kvs) @ CHR ''}'' # rest"
    have items: "parse_object_items n' ?body = Some (kvs, rest)"
    proof (rule parse_object_items_dumps)
      show "parse_value m (json_dumps v @ r) = Some (v, r)"
        if "(k, v) \<in> set kvs" "number_ends r" "2 * length (json_dumps v @ r) < m" for k v m r
      proof (rule JObj.IH)
        show "(k, v) \<in> set kvs" by fact
        show "v \<in> Basic_BNFs.snds (k, v)" by simp
        show "wf_json v" using that(1) JObj.prems(1) by (auto simp: list_all_iff)
      qed (use that in simp_all)
    qed (use False JObj.prems(3) n in \<open>simp_all add: json_dumps_JObj\<close>)
    have sv: "starts_value ?body" using False by (rule starts_value_join_items)
    from starts_value_Cons [OF sv] obtain d ds where
      d: "?body = d # ds" "d \<noteq> CHR ''}''" by blast
    from sv have "skip_ws ?body = ?body" by (rule starts_value_skip_ws)
    with d items n JObj.prems(1) show ?thesis
      by (simp add: json_dumps_JObj parse_value_object dict_of_pairs_distinct)
  qed
qed

theorem json_loads_dumps: "wf_json v \<Longrightarrow> json_loads (json_dumps v) = Inr v"
proof -
  assume wf: "wf_json v"
  have "skip_ws (json_dumps v @ []) = json_dumps v @ []"
    by (intro starts_value_skip_ws starts_value_dumps)
  moreover have "parse_value (2 * length (json_dumps v) + 2) (json_dumps v @ []) = Some (v, [])"
    using wf by (intro parse_value_dumps) (simp_all add: number_ends_simps)
  ultimately show ?thesis by (simp add: json_loads_def skip_ws_simps)
qed

section \<open>The module\<close>

text \<open>
  The class \<^verbatim>\<open>AMQPProcessManagerIPC\<close> keeps two file handles, bound by \<^verbatim>\<open>init()\<close> to the
  process's standard input and output. The state of the model is what is still unread
  on the first and what has been written to the second. A read at the end of the input
  returns the empty string, as \<^verbatim>\<open>readline()\<close> does at end of file.
\<close>

record ipc =
  fh_from_manager :: string
  fh_to_manager :: string

definition init :: "string \<Rightarrow> ipc" where
  "init stdin = \<lparr>fh_from_manager = stdin, fh_to_manager = []\<rparr>"

subsection \<open>Python operations on values\<close>

text \<open>
  \<^verbatim>\<open>msg.rstrip()\<close> works on the byte string read from the handle and removes the C
  locale's white space; \<^verbatim>\<open>keyword.strip()\<close> works on a \<^verbatim>\<open>unicode\<close> string from
  \<^verbatim>\<open>json.loads\<close> and removes Unicode white space (here: the code points below 256).
\<close>

definition is_space :: "char \<Rightarrow> bool" where
  "is_space c \<longleftrightarrow> (let n = (of_char c :: nat) in (9 \<le> n \<and> n \<le> 13) \<or> n = 32)"

definition rstrip :: "string \<Rightarrow> string" where
  "rstrip s = rev (dropWhile is_space (rev s))"

definition is_uspace :: "char \<Rightarrow> bool" where
  "is_uspace c \<longleftrightarrow>
     (let n = (of_char c :: nat)
      in (9 \<le> n \<and> n \<le> 13) \<or> (28 \<le> n \<and> n \<le> 32) \<or> n = 0x85 \<or> n = 0xA0)"

definition strip :: "string \<Rightarrow> string" where
  "strip s = rev (dropWhile is_uspace (rev (dropWhile is_uspace s)))"

text \<open>
  \<^verbatim>\<open>len(x)\<close>, \<^verbatim>\<open>x[0]\<close>, \<^verbatim>\<open>x[1:]\<close> and \<^verbatim>\<open>x.strip()\<close> on a value of any type. Strings and lists
  are sequences; a dictionary has a length but no key \<^verbatim>\<open>0\<close> (its keys are strings);
  numbers, booleans and \<^verbatim>\<open>None\<close> have neither.
\<close>

fun py_len :: "json \<Rightarrow> error + nat" where
  "py_len (JStr s) = Inr (length s)"
| "py_len (JArr xs) = Inr (length xs)"
| "py_len (JObj kvs) = Inr (length kvs)"
| "py_len v = Inl TypeError"

fun py_item0 :: "json \<Rightarrow> error + json" where
  "py_item0 (JStr []) = Inl IndexError"
| "py_item0 (JStr (c # cs)) = Inr (JStr [c])"
| "py_item0 (JArr []) = Inl IndexError"
| "py_item0 (JArr (x # xs)) = Inr x"
| "py_item0 (JObj kvs) = Inl KeyError"
| "py_item0 v = Inl TypeError"

fun py_slice1 :: "json \<Rightarrow> error + json" where
  "py_slice1 (JStr s) = Inr (JStr (drop 1 s))"
| "py_slice1 (JArr xs) = Inr (JArr (drop 1 xs))"
| "py_slice1 v = Inl TypeError"

fun py_strip :: "json \<Rightarrow> error + string" where
  "py_strip (JStr s) = Inr (strip s)"
| "py_strip v = Inl AttributeError"

text \<open>\<^verbatim>\<open>json.loads(x)\<close> for a value \<^verbatim>\<open>x\<close>: only a string can be parsed.\<close>

fun py_json_loads :: "json \<Rightarrow> error + json" where
  "py_json_loads (JStr s) = json_loads s"
| "py_json_loads v = Inl TypeError"

subsection \<open>Receiving\<close>

fun readline :: "string \<Rightarrow> string \<times> string" where
  "readline [] = ([], [])"
| "readline (c # cs) =
     (if c = NL then ([c], cs) else (case readline cs of (l, r) \<Rightarrow> (c # l, r)))"

definition bind_err :: "error + 'a \<Rightarrow> ('a \<Rightarrow> error + 'b) \<Rightarrow> error + 'b" where
  "bind_err m f = (case m of Inl e \<Rightarrow> Inl e | Inr x \<Rightarrow> f x)"

text \<open>
  Lines 51 to 60 of \<^verbatim>\<open>_receive_ipc_message\<close>: what happens to the line once it is read.
  \<^verbatim>\<open>
    msg_obj = json.loads(msg.rstrip())
    assert(len(msg_obj) >= 1)
    keyword = msg_obj[0]
    payload = msg_obj[1:]
    assert(keyword.strip() != '')
    return (keyword, payload)
  \<close>
\<close>

definition decode_line :: "string \<Rightarrow> error + json \<times> json" where
  "decode_line msg =
     bind_err (json_loads (rstrip msg)) (\<lambda>msg_obj.
     bind_err (py_len msg_obj) (\<lambda>n.
       if \<not> n \<ge> 1 then Inl AssertionError
       else
         bind_err (py_item0 msg_obj) (\<lambda>keyword.
         bind_err (py_slice1 msg_obj) (\<lambda>payload.
         bind_err (py_strip keyword) (\<lambda>stripped.
           if \<not> stripped \<noteq> [] then Inl AssertionError
           else Inr (keyword, payload))))))"

text \<open>
  \<^verbatim>\<open>_receive_ipc_message\<close>: the line is taken from the input before anything can fail,
  so the new state is returned with an error as well.
\<close>

definition receive_ipc_message :: "ipc \<Rightarrow> (error + json \<times> json) \<times> ipc" where
  "receive_ipc_message s =
     (case readline (fh_from_manager s) of
        (msg, rest) \<Rightarrow> (decode_line msg, s\<lparr>fh_from_manager := rest\<rparr>))"

lemma parse_value_Nil: "parse_value n [] = None"
  by (cases n) (simp_all add: parse_value.simps)

lemma decode_line_Nil: "decode_line [] = Inl ValueError"
  by (simp add: decode_line_def rstrip_def json_loads_def skip_ws_def parse_value_Nil bind_err_def)

lemma readline_length: "readline s = (l, r) \<Longrightarrow> length s = length l + length r"
  by (induction s arbitrary: l r) (auto split: if_splits prod.splits)

lemma readline_Nil: "readline s = ([], r) \<Longrightarrow> s = []"
  by (cases s) (auto split: if_splits prod.splits)

lemma receive_ipc_message_consumes:
  assumes "receive_ipc_message s = (Inr x, s')"
  shows "length (fh_from_manager s') < length (fh_from_manager s)"
proof -
  obtain msg rest where rl: "readline (fh_from_manager s) = (msg, rest)"
    by (cases "readline (fh_from_manager s)")
  with assms have d: "decode_line msg = Inr x" and s': "s' = s\<lparr>fh_from_manager := rest\<rparr>"
    by (simp_all add: receive_ipc_message_def)
  from d have "msg \<noteq> []" using decode_line_Nil by auto
  with readline_length [OF rl] s' show ?thesis by (cases msg) simp_all
qed

text \<open>
  The loop of \<^verbatim>\<open>receive_message\<close>: read envelopes until one has the keyword
  \<^verbatim>\<open>'message'\<close>, and check that its payload has one element. Each round takes a line
  from the input, and at the end of the input the decoder raises, so the loop ends.
\<close>

function wait_for_message :: "ipc \<Rightarrow> (error + json) \<times> ipc" where
  "wait_for_message s =
     (case receive_ipc_message s of
        (Inl e, s') \<Rightarrow> (Inl e, s')
      | (Inr (keyword, data), s') \<Rightarrow>
          if keyword = JStr ''message'' then
            (case py_len data of
               Inl e \<Rightarrow> (Inl e, s')
             | Inr n \<Rightarrow> if \<not> n = 1 then (Inl AssertionError, s') else (Inr data, s'))
          else wait_for_message s')"
  by pat_completeness auto
termination
  by (relation "measure (\<lambda>s. length (fh_from_manager s))")
     (auto dest: receive_ipc_message_consumes [OF sym])


declare wait_for_message.simps [simp del]

text \<open>
  \<^verbatim>\<open>receive_message(decode=None)\<close>. The selector is checked first: \<^verbatim>\<open>'json'\<close> selects
  \<^verbatim>\<open>json.loads\<close> as the decoder, \<^verbatim>\<open>None\<close> selects none, anything else raises before the
  loop is entered.
\<close>

definition receive_message :: "string option \<Rightarrow> ipc \<Rightarrow> (error + json) \<times> ipc" where
  "receive_message decode s =
     (case (if decode = Some ''json'' then Inr (Some py_json_loads)
            else (case decode of
                    Some d \<Rightarrow> Inl (Exception (''No such decoder: '' @ d))
                  | None \<Rightarrow> Inr None)) of
        Inl e \<Rightarrow> (Inl e, s)
      | Inr decoder \<Rightarrow>
          (case wait_for_message s of
             (Inl e, s') \<Rightarrow> (Inl e, s')
           | (Inr data, s') \<Rightarrow>
               (case py_item0 data of
                  Inl e \<Rightarrow> (Inl e, s')
                | Inr msg_content \<Rightarrow>
                    (case decoder of
                       None \<Rightarrow> (Inr msg_content, s')
                     | Some f \<Rightarrow> (f msg_content, s')))))"

subsection \<open>Sending\<close>

text \<open>
  \<^verbatim>\<open>_send_ipc_message\<close> serialises first, then writes the text and the line feed while it
  holds \<^verbatim>\<open>to_lock\<close>.
\<close>

definition send_ipc_message :: "json \<Rightarrow> ipc \<Rightarrow> ipc" where
  "send_ipc_message msg_obj s =
     (let str = json_dumps msg_obj;
          s1 = s\<lparr>fh_to_manager := fh_to_manager s @ str\<rparr>
      in s1\<lparr>fh_to_manager := fh_to_manager s1 @ [NL]\<rparr>)"

definition send_result :: "json \<Rightarrow> string option \<Rightarrow> ipc \<Rightarrow> (error + unit) \<times> ipc" where
  "send_result result encode s =
     (case (if encode = Some ''json'' then Inr (JStr (json_dumps result))
            else (case encode of
                    Some e \<Rightarrow> Inl (Exception (''No such encoder: '' @ e))
                  | None \<Rightarrow> Inr result)) of
        Inl e \<Rightarrow> (Inl e, s)
      | Inr result' \<Rightarrow> (Inr (), send_ipc_message (JArr [JStr ''result'', result']) s))"

definition send_heartbeat :: "ipc \<Rightarrow> ipc" where
  "send_heartbeat s = send_ipc_message (JArr [JStr ''heartbeat'']) s"

subsection \<open>What dumps writes is one line of printable ASCII\<close>

definition printable :: "char \<Rightarrow> bool" where
  "printable c \<longleftrightarrow> 0x20 \<le> (of_char c :: nat) \<and> (of_char c :: nat) \<le> 0x7E"

lemma printable_chars:
  "printable DQ" "printable BSL" "printable (CHR ''['')" "printable (CHR '']'')"
  "printable (CHR ''{'')" "printable (CHR ''}'')" "printable (CHR '','')" "printable (CHR '':'')"
  "printable (CHR '' '')" "printable (CHR ''-'')" "printable (CHR ''0'')"
  "printable (CHR ''a'')" "printable (CHR ''b'')" "printable (CHR ''e'')" "printable (CHR ''f'')"
  "printable (CHR ''l'')" "printable (CHR ''n'')" "printable (CHR ''r'')" "printable (CHR ''s'')"
  "printable (CHR ''t'')" "printable (CHR ''u'')"
  by (simp_all add: printable_def)

lemma printable_hex_digit: "n < 16 \<Longrightarrow> printable (hex_digit n)"
  by (auto simp: printable_def hex_digit_def)

lemma printable_escape_char: "list_all printable (escape_char c)"
proof -
  have "(of_char c :: nat) div 16 < 16"
    using nat_of_char_less_256 [of c] by arith
  then show ?thesis
    by (simp add: escape_char_def printable_hex_digit printable_chars) (simp add: printable_def)
qed

lemma printable_concat: "list_all (list_all P) xss \<Longrightarrow> list_all P (concat xss)"
  by (induction xss) simp_all

lemma printable_string: "list_all printable (encode_basestring_ascii s)"
proof -
  have "list_all (list_all printable) (map escape_char s)"
    by (induction s) (simp_all add: printable_escape_char)
  then have "list_all printable (concat (map escape_char s))"
    by (rule printable_concat)
  then show ?thesis by (simp add: encode_basestring_ascii_def printable_chars)
qed

lemma printable_digits10: "list_all printable (digits10 n)"
  using digits10_all_digits [of n] by (auto simp: list_all_iff is_digit_def printable_def)

lemma printable_int_str: "list_all printable (int_str i)"
  by (simp add: int_str_def printable_digits10 printable_chars)

lemma printable_join:
  "list_all printable sep \<Longrightarrow> list_all (list_all printable) xs \<Longrightarrow>
     list_all printable (join_str sep xs)"
  by (induction sep xs rule: join_str.induct) simp_all

lemma printable_sep: "list_all printable '', ''" "list_all printable '': ''"
  by (simp_all add: printable_chars)

lemma printable_dumps: "list_all printable (json_dumps v)"
proof (induction v)
  case (JArr xs)
  then have "list_all (list_all printable) (map json_dumps xs)"
    by (simp add: list_all_iff)
  then have "list_all printable (join_str '', '' (map json_dumps xs))"
    by (intro printable_join printable_sep)
  then show ?case by (simp add: printable_chars)
next
  case (JObj kvs)
  have "list_all printable (dumps_item kv)" if "kv \<in> set kvs" for kv
  proof -
    have "snd kv \<in> Basic_BNFs.snds kv" by (cases kv) simp
    with that JObj.IH have "list_all printable (json_dumps (snd kv))" by blast
    then show ?thesis
      by (simp add: dumps_item_def printable_string printable_chars)
  qed
  then have "list_all (list_all printable) (map dumps_item kvs)"
    by (simp add: list_all_iff)
  then have "list_all printable (join_str '', '' (map dumps_item kvs))"
    by (intro printable_join printable_sep)
  then show ?case by (simp add: json_dumps_JObj printable_chars)
qed (simp_all add: printable_string printable_int_str printable_chars)

lemma dumps_no_newline: "NL \<notin> set (json_dumps v)"
proof
  assume "NL \<in> set (json_dumps v)"
  with printable_dumps [of v] have "printable NL" by (simp add: list_all_iff)
  then show False by (simp add: printable_def)
qed

lemma readline_line: "NL \<notin> set l \<Longrightarrow> readline (l @ NL # rest) = (l @ [NL], rest)"
  by (induction l) auto

lemma rstrip_newline:
  "\<not> is_space c \<Longrightarrow> rstrip (t @ [c, NL]) = t @ [c]"
  by (simp add: rstrip_def is_space_def)


lemma json_dumps_JArr_line:
  "json_dumps (JArr xs) @ [NL] = (CHR ''['' # join_str '', '' (map json_dumps xs)) @ [CHR '']'', NL]"
  by simp

lemma rstrip_dumps_JArr: "rstrip (json_dumps (JArr xs) @ [NL]) = json_dumps (JArr xs)"
  unfolding json_dumps_JArr_line by (subst rstrip_newline) (simp_all add: is_space_def)

lemma decode_line_envelope:
  assumes "list_all wf_json xs"
  shows "decode_line (json_dumps (JArr (JStr k # xs)) @ [NL]) =
           (if strip k = [] then Inl AssertionError else Inr (JStr k, JArr xs))"
proof -
  from assms have "wf_json (JArr (JStr k # xs))" by simp
  then have "json_loads (json_dumps (JArr (JStr k # xs))) = Inr (JArr (JStr k # xs))"
    by (rule json_loads_dumps)
  then show ?thesis
    by (simp add: decode_line_def rstrip_dumps_JArr bind_err_def del: json_dumps.simps)
qed

lemma receive_ipc_message_line:
  assumes "fh_from_manager s = json_dumps v @ NL # rest"
  shows "receive_ipc_message s = (decode_line (json_dumps v @ [NL]), s\<lparr>fh_from_manager := rest\<rparr>)"
  using assms by (simp add: receive_ipc_message_def readline_line dumps_no_newline)

lemma strip_result: "strip ''result'' = ''result''"
  by (simp add: strip_def is_uspace_def)

lemma fh_to_manager_send:
  "fh_to_manager (send_ipc_message msg_obj s) = fh_to_manager s @ json_dumps msg_obj @ [NL]"
  by (simp add: send_ipc_message_def Let_def)

section \<open>The claims\<close>

text \<open>
  C1. For every value \<open>v\<close>, the line that \<^verbatim>\<open>_send_ipc_message\<close> writes for the envelope
  \<^verbatim>\<open>["result", v]\<close> (the text of \<^verbatim>\<open>json.dumps\<close> and a line feed), read back by
  \<^verbatim>\<open>_receive_ipc_message\<close> (strip, \<^verbatim>\<open>json.loads\<close>, split), gives the keyword \<^verbatim>\<open>"result"\<close>
  and the payload with the one element \<open>v\<close>, and the whole line is taken from the input.
\<close>

theorem result_roundtrip:
  "wf_json v \<Longrightarrow>
     receive_ipc_message
       (init (fh_to_manager (send_ipc_message (JArr [JStr ''result'', v]) (init stdin))))
     = (Inr (JStr ''result'', JArr [v]), init [])"
proof -
  assume wf: "wf_json v"
  let ?env = "JArr [JStr ''result'', v]"
  have out: "fh_to_manager (send_ipc_message ?env (init stdin)) = json_dumps ?env @ NL # []"
    by (simp add: fh_to_manager_send init_def)
  have "receive_ipc_message (init (json_dumps ?env @ NL # []))
          = (decode_line (json_dumps ?env @ [NL]), (init (json_dumps ?env @ NL # []))\<lparr>fh_from_manager := []\<rparr>)"
    by (rule receive_ipc_message_line) (simp add: init_def)
  moreover have "decode_line (json_dumps ?env @ [NL]) = Inr (JStr ''result'', JArr [v])"
    using wf decode_line_envelope [of "[v]" "''result''"] by (simp add: strip_result)
  ultimately show ?thesis
    unfolding out by (simp add: init_def)
qed

theorem result_roundtrip_witness:
  "wf_json (JObj [(''a'', JArr [JInt 1, JInt 2, JInt 3]), (''b'', JStr [NL, DQ])]) \<and>
   receive_ipc_message
     (init (fh_to_manager
        (send_ipc_message
           (JArr [JStr ''result'',
                  JObj [(''a'', JArr [JInt 1, JInt 2, JInt 3]), (''b'', JStr [NL, DQ])]])
           (init []))))
   = (Inr (JStr ''result'',
           JArr [JObj [(''a'', JArr [JInt 1, JInt 2, JInt 3]), (''b'', JStr [NL, DQ])]]),
      init [])"
proof -
  have wf: "wf_json (JObj [(''a'', JArr [JInt 1, JInt 2, JInt 3]), (''b'', JStr [NL, DQ])])"
    by simp
  show ?thesis
    using wf result_roundtrip [OF wf, of "[]"] by simp
qed

text \<open>
  C4. With a selector that is neither \<^verbatim>\<open>None\<close> nor \<^verbatim>\<open>'json'\<close>, \<^verbatim>\<open>receive_message\<close> raises
  \<^verbatim>\<open>Exception('No such decoder: ...')\<close> and the state is the one it was called in: nothing
  has been read from the input.
\<close>

theorem receive_message_unknown_decoder:
  "d \<noteq> ''json'' \<Longrightarrow>
     receive_message (Some d) s = (Inl (Exception (''No such decoder: '' @ d)), s)"
  by (simp add: receive_message_def)

theorem receive_message_unknown_decoder_witness:
  \<open>''xml'' \<noteq> ''json'' \<and>
   receive_message (Some ''xml'') (init ''["message", "X"]'')
     = (Inl (Exception ''No such decoder: xml''), init ''["message", "X"]'')\<close>
  using receive_message_unknown_decoder [of \<open>''xml''\<close> \<open>init ''["message", "X"]''\<close>]
  by simp

text \<open>
  C7. With a selector that is neither \<^verbatim>\<open>None\<close> nor \<^verbatim>\<open>'json'\<close>, \<^verbatim>\<open>send_result\<close> raises
  \<^verbatim>\<open>Exception('No such encoder: ...')\<close> and the state is the one it was called in: nothing
  has been written.
\<close>

theorem send_result_unknown_encoder:
  "e \<noteq> ''json'' \<Longrightarrow>
     send_result result (Some e) s = (Inl (Exception (''No such encoder: '' @ e)), s)"
  by (simp add: send_result_def)

theorem send_result_unknown_encoder_witness:
  "''xml'' \<noteq> ''json'' \<and>
   send_result (JArr [JInt 1, JNull]) (Some ''xml'') (init [])
     = (Inl (Exception ''No such encoder: xml''), init [])"
  using send_result_unknown_encoder [of "''xml''" "JArr [JInt 1, JNull]" "init []"]
  by simp

text \<open>
  C9. Without an encoder, \<^verbatim>\<open>send_result\<close> looks at no type: for any value the call returns
  normally and writes the one line \<^verbatim>\<open>["result", v]\<close>, where \<open>v\<close> stands as
  \<^verbatim>\<open>json.dumps\<close> writes it inside the array, serialised once.
\<close>

theorem send_result_plain:
  \<open>send_result v None s =
     (Inr (), s\<lparr>fh_to_manager := fh_to_manager s @ ''["result", '' @ json_dumps v @ '']'' @ [NL]\<rparr>)\<close>
  by (simp add: send_result_def send_ipc_message_def Let_def encode_basestring_ascii_def
      escape_char_def)


text \<open>
  C6. \<^verbatim>\<open>send_result({"a": [1, 2, 3]}, encode="json")\<close> writes the line
  \<^verbatim>\<open>["result", "{\"a\": [1, 2, 3]}"]\<close>, and that line decodes to the keyword \<^verbatim>\<open>"result"\<close>
  with one payload element, the string \<^verbatim>\<open>{"a": [1, 2, 3]}\<close>: the text of the result,
  not the dictionary.
\<close>

theorem send_result_json_example:
  \<open>send_result (JObj [(''a'', JArr [JInt 1, JInt 2, JInt 3])]) (Some ''json'') (init [])
     = (Inr (), \<lparr>fh_from_manager = [],
                 fh_to_manager = ''["result", "{'' @ [BSL] @ ''"a'' @ [BSL] @ ''": [1, 2, 3]}"]'' @ [NL]\<rparr>)
   \<and> decode_line (''["result", "{'' @ [BSL] @ ''"a'' @ [BSL] @ ''": [1, 2, 3]}"]'' @ [NL])
     = Inr (JStr ''result'', JArr [JStr ''{"a": [1, 2, 3]}''])\<close>
  by code_simp


text \<open>
  The input of the filtering example: the three lines \<^verbatim>\<open>["heartbeat"]\<close>,
  \<^verbatim>\<open>["message", "X"]\<close> and \<^verbatim>\<open>["other", 1]\<close>.
\<close>

definition filtering_input :: string where
  \<open>filtering_input =
     ''["heartbeat"]'' @ [NL] @ ''["message", "X"]'' @ [NL] @ ''["other", 1]'' @ [NL]\<close>

text \<open>
  C2 (as the code has it). On the input \<open>filtering_input\<close>, \<^verbatim>\<open>receive_message()\<close> returns
  \<^verbatim>\<open>"X"\<close>. It has then read \<^verbatim>\<open>["heartbeat"]\<close>, which it dropped, and
  \<^verbatim>\<open>["message", "X"]\<close>; the line \<^verbatim>\<open>["other", 1]\<close> that follows the message is still on
  the input. A second call reads and drops that line and, the input being at its end,
  raises the decoder's \<^verbatim>\<open>ValueError\<close> on the empty line; \<^verbatim>\<open>["other", 1]\<close> is never
  returned.
\<close>

theorem receive_message_filtering:
  \<open>receive_message None (init filtering_input)
     = (Inr (JStr ''X''), init (''["other", 1]'' @ [NL]))
   \<and> receive_message None (init (''["other", 1]'' @ [NL])) = (Inl ValueError, init [])\<close>
  by code_simp

text \<open>
  C2 as stated has both envelopes other than the message consumed when the call
  returns \<^verbatim>\<open>"X"\<close>; the input is not empty then.
\<close>

theorem receive_message_filtering_rest:
  \<open>fh_from_manager (snd (receive_message None (init filtering_input))) \<noteq> []\<close>
  by code_simp

lemma json_loads_ValueError: "json_loads s = Inl e \<Longrightarrow> e = ValueError"
  by (auto simp: json_loads_def split: option.splits if_splits)

lemma strip_Cons: "strip (c # cs) = [] \<longleftrightarrow> is_uspace c \<and> strip cs = []"
  by (auto simp: strip_def)

lemma strip_single: "strip [c] = [] \<longleftrightarrow> is_uspace c"
  by (simp add: strip_def)

lemma strip_empty_iff: "strip k = [] \<longleftrightarrow> list_all is_uspace k"
proof
  assume "list_all is_uspace k"
  then have d: "dropWhile is_uspace k = []" by (simp add: list_all_iff)
  show "strip k = []" unfolding strip_def d by simp
next
  assume a: "strip k = []"
  show "list_all is_uspace k"
  proof (rule ccontr)
    assume "\<not> list_all is_uspace k"
    then have ne: "dropWhile is_uspace k \<noteq> []" by (simp add: list_all_iff)
    then have "\<not> is_uspace (hd (dropWhile is_uspace k))" by (rule hd_dropWhile)
    then have "\<not> list_all is_uspace (rev (dropWhile is_uspace k))"
      using ne by (cases "dropWhile is_uspace k") (simp_all add: list_all_iff)
    then have "dropWhile is_uspace (rev (dropWhile is_uspace k)) \<noteq> []"
      by (simp add: list_all_iff)
    with a show False by (simp add: strip_def)
  qed
qed

lemma decode_line_cases:
  "decode_line msg =
     (case json_loads (rstrip msg) of
        Inl e \<Rightarrow> Inl ValueError
      | Inr v \<Rightarrow>
          (case v of
             JArr xs \<Rightarrow>
               (case xs of
                  [] \<Rightarrow> Inl AssertionError
                | x # xs' \<Rightarrow>
                    (case x of
                       JStr k \<Rightarrow> if strip k = [] then Inl AssertionError else Inr (JStr k, JArr xs')
                     | _ \<Rightarrow> Inl AttributeError))
           | JStr s \<Rightarrow>
               (case s of
                  [] \<Rightarrow> Inl AssertionError
                | c # cs \<Rightarrow> if is_uspace c then Inl AssertionError else Inr (JStr [c], JStr cs))
           | JObj kvs \<Rightarrow> (case kvs of [] \<Rightarrow> Inl AssertionError | _ \<Rightarrow> Inl KeyError)
           | _ \<Rightarrow> Inl TypeError))"
  by (auto simp: decode_line_def bind_err_def strip_single dest: json_loads_ValueError
      split: sum.splits json.splits list.splits)

text \<open>
  C3 (as the code has it). The decode step returns an envelope exactly when the line,
  stripped, is valid JSON and is either an array whose first element is a string with a
  character that is not white space (keyword: that string, payload: the other
  elements), or a string whose first character is not white space (keyword: that
  character, payload: the rest of the string). In every other case it raises:
  \<^verbatim>\<open>ValueError\<close> when the line is not valid JSON; \<^verbatim>\<open>AssertionError\<close> for an empty
  array, string or object and for a keyword that is empty or all white space;
  \<^verbatim>\<open>TypeError\<close> for a number, a boolean or \<^verbatim>\<open>null\<close>; \<^verbatim>\<open>KeyError\<close> for an object that is
  not empty; \<^verbatim>\<open>AttributeError\<close> for an array whose first element is not a string.
\<close>

theorem decode_line_returns_iff:
  "(decode_line msg = Inr (keyword, payload) \<longleftrightarrow>
      (\<exists>k xs. json_loads (rstrip msg) = Inr (JArr (JStr k # xs)) \<and> \<not> list_all is_uspace k
          \<and> keyword = JStr k \<and> payload = JArr xs)
    \<or> (\<exists>c cs. json_loads (rstrip msg) = Inr (JStr (c # cs)) \<and> \<not> is_uspace c
          \<and> keyword = JStr [c] \<and> payload = JStr cs))
   \<and> decode_line msg =
     (case json_loads (rstrip msg) of
        Inl e \<Rightarrow> Inl ValueError
      | Inr v \<Rightarrow>
          (case v of
             JArr xs \<Rightarrow>
               (case xs of
                  [] \<Rightarrow> Inl AssertionError
                | x # xs' \<Rightarrow>
                    (case x of
                       JStr k \<Rightarrow>
                         if list_all is_uspace k then Inl AssertionError
                         else Inr (JStr k, JArr xs')
                     | _ \<Rightarrow> Inl AttributeError))
           | JStr s \<Rightarrow>
               (case s of
                  [] \<Rightarrow> Inl AssertionError
                | c # cs \<Rightarrow> if is_uspace c then Inl AssertionError else Inr (JStr [c], JStr cs))
           | JObj kvs \<Rightarrow> (case kvs of [] \<Rightarrow> Inl AssertionError | _ \<Rightarrow> Inl KeyError)
           | _ \<Rightarrow> Inl TypeError))"
  unfolding decode_line_cases
  by (auto simp: strip_empty_iff split: sum.splits json.splits list.splits)

text \<open>
  C3 as stated fails in both directions: the line \<^verbatim>\<open>"abc"\<close> is not an array and is
  decoded, to the keyword \<^verbatim>\<open>a\<close> and the payload \<^verbatim>\<open>bc\<close>; the line \<^verbatim>\<open>[1, "x"]\<close> is a
  non-empty array whose first element is no blank keyword, and the step raises
  \<^verbatim>\<open>AttributeError\<close>.
\<close>

theorem decode_line_not_only_arrays:
  \<open>json_loads (rstrip (''"abc"'' @ [NL])) = Inr (JStr ''abc'')
   \<and> decode_line (''"abc"'' @ [NL]) = Inr (JStr ''a'', JStr ''bc'')
   \<and> json_loads (rstrip (''[1, "x"]'' @ [NL])) = Inr (JArr [JInt 1, JStr ''x''])
   \<and> decode_line (''[1, "x"]'' @ [NL]) = Inl AttributeError\<close>
  by code_simp


subsection \<open>Lines that the loop drops\<close>

definition is_line :: "string \<Rightarrow> bool" where
  "is_line l \<longleftrightarrow> l \<noteq> [] \<and> last l = NL \<and> NL \<notin> set (butlast l)"

definition discarded :: "string \<Rightarrow> bool" where
  "discarded l \<longleftrightarrow>
     (case decode_line l of
        Inl e \<Rightarrow> False
      | Inr (keyword, data) \<Rightarrow> keyword \<noteq> JStr ''message'')"

lemma readline_is_line: "is_line l \<Longrightarrow> readline (l @ rest) = (l, rest)"
proof -
  assume a: "is_line l"
  define t where "t = butlast l"
  from a have l: "l = t @ [NL]"
    unfolding t_def is_line_def using append_butlast_last_id [of l] by simp
  from a have t: "NL \<notin> set t" by (simp add: t_def is_line_def)
  from readline_line [OF t, of rest] show ?thesis unfolding l by simp
qed

lemma receive_ipc_message_is_line:
  "is_line l \<Longrightarrow>
     receive_ipc_message (s\<lparr>fh_from_manager := l @ rest\<rparr>)
       = (decode_line l, s\<lparr>fh_from_manager := rest\<rparr>)"
  by (simp add: receive_ipc_message_def readline_is_line)

lemma wait_for_message_discarded:
  "is_line l \<Longrightarrow> discarded l \<Longrightarrow>
     wait_for_message (s\<lparr>fh_from_manager := l @ rest\<rparr>)
       = wait_for_message (s\<lparr>fh_from_manager := rest\<rparr>)"
  by (subst wait_for_message.simps)
     (auto simp: receive_ipc_message_is_line discarded_def split: sum.splits)

lemma wait_for_message_discarded_lines:
  "list_all is_line ls \<Longrightarrow> list_all discarded ls \<Longrightarrow>
     wait_for_message (s\<lparr>fh_from_manager := concat ls @ rest\<rparr>)
       = wait_for_message (s\<lparr>fh_from_manager := rest\<rparr>)"
  by (induction ls) (simp_all add: wait_for_message_discarded)

lemma decode_line_message_payload:
  "decode_line l = Inr (JStr ''message'', data) \<Longrightarrow> \<exists>payload. data = JArr payload"
  unfolding decode_line_cases
  by (auto split: sum.splits json.splits list.splits if_splits)

lemma wait_for_message_bad_payload:
  assumes "is_line l" and "decode_line l = Inr (JStr ''message'', data)"
    and "py_len data \<noteq> Inr 1"
  shows "wait_for_message (s\<lparr>fh_from_manager := l @ rest\<rparr>)
           = (Inl AssertionError, s\<lparr>fh_from_manager := rest\<rparr>)"
proof -
  from assms(2) obtain payload where "data = JArr payload"
    using decode_line_message_payload by blast
  with assms show ?thesis
    by (subst wait_for_message.simps) (simp add: receive_ipc_message_is_line)
qed

text \<open>
  C5. When the loop of \<^verbatim>\<open>receive_message\<close> reaches an envelope with the keyword
  \<^verbatim>\<open>'message'\<close> whose payload does not have exactly one element, the call raises
  \<^verbatim>\<open>AssertionError\<close> and returns no content, with or without a decoder. The lines before
  it are lines that the loop drops; the line itself is taken from the input.
\<close>

theorem receive_message_payload_length:
  assumes "list_all is_line ls" and "list_all discarded ls"
    and "is_line l" and "decode_line l = Inr (JStr ''message'', data)"
    and "py_len data \<noteq> Inr 1"
    and "decode = None \<or> decode = Some ''json''"
  shows "receive_message decode (s\<lparr>fh_from_manager := concat ls @ l @ rest\<rparr>)
           = (Inl AssertionError, s\<lparr>fh_from_manager := rest\<rparr>)"
proof -
  have "wait_for_message (s\<lparr>fh_from_manager := concat ls @ l @ rest\<rparr>)
          = wait_for_message (s\<lparr>fh_from_manager := l @ rest\<rparr>)"
    using assms(1,2) by (rule wait_for_message_discarded_lines)
  also have "\<dots> = (Inl AssertionError, s\<lparr>fh_from_manager := rest\<rparr>)"
    using assms(3,4,5) by (rule wait_for_message_bad_payload)
  finally show ?thesis
    using assms(6) by (auto simp: receive_message_def)
qed

theorem receive_message_payload_length_witness:
  \<open>list_all is_line [''["heartbeat"]'' @ [NL]]
   \<and> list_all discarded [''["heartbeat"]'' @ [NL]]
   \<and> is_line (''["message","a","b"]'' @ [NL])
   \<and> decode_line (''["message","a","b"]'' @ [NL])
        = Inr (JStr ''message'', JArr [JStr ''a'', JStr ''b''])
   \<and> py_len (JArr [JStr ''a'', JStr ''b'']) \<noteq> Inr 1
   \<and> receive_message (Some ''json'')
        ((init [])\<lparr>fh_from_manager :=
           concat [''["heartbeat"]'' @ [NL]] @ (''["message","a","b"]'' @ [NL])
             @ (''["message", "X"]'' @ [NL])\<rparr>)
        = (Inl AssertionError, (init [])\<lparr>fh_from_manager := ''["message", "X"]'' @ [NL]\<rparr>)\<close>
proof -
  have h1: \<open>list_all is_line [''["heartbeat"]'' @ [NL]]\<close> by code_simp
  have h2: \<open>list_all discarded [''["heartbeat"]'' @ [NL]]\<close> by code_simp
  have h3: \<open>is_line (''["message","a","b"]'' @ [NL])\<close> by code_simp
  have h4: \<open>decode_line (''["message","a","b"]'' @ [NL])
              = Inr (JStr ''message'', JArr [JStr ''a'', JStr ''b''])\<close> by code_simp
  have h5: "py_len (JArr [JStr ''a'', JStr ''b'']) \<noteq> Inr 1" by simp
  have h6: "Some ''json'' = None \<or> Some ''json'' = Some ''json''" by simp
  from receive_message_payload_length [OF h1 h2 h3 h4 h5 h6] h1 h2 h3 h4 h5
  show ?thesis by blast
qed


lemma strip_padded:
  assumes "list_all is_uspace ws1" and "list_all is_uspace ws2"
    and "m \<noteq> []" and "\<not> is_uspace (hd m)" and "\<not> is_uspace (last m)"
  shows "strip (ws1 @ m @ ws2) = m"
proof -
  have a: "dropWhile is_uspace (ws1 @ (m @ ws2)) = dropWhile is_uspace (m @ ws2)"
    using assms(1) by (intro dropWhile_append2) (simp add: list_all_iff)
  have b: "dropWhile is_uspace (m @ ws2) = m @ ws2"
    using assms(3,4) by (cases m) simp_all
  have c: "dropWhile is_uspace (rev ws2 @ rev m) = dropWhile is_uspace (rev m)"
    using assms(2) by (intro dropWhile_append2) (simp add: list_all_iff)
  have d: "dropWhile is_uspace (rev m) = rev m"
    using assms(3,5) by (cases m rule: rev_cases) simp_all
  show ?thesis by (simp add: strip_def a b c d)
qed

lemma padded_neq: "ws1 @ ws2 \<noteq> [] \<Longrightarrow> ws1 @ m @ ws2 \<noteq> m"
proof
  assume ne: "ws1 @ ws2 \<noteq> []" and eq: "ws1 @ m @ ws2 = m"
  from eq have "length (ws1 @ m @ ws2) = length m" by simp
  then have "ws1 = [] \<and> ws2 = []" by simp
  with ne show False by simp
qed

lemma strip_padded_message:
  assumes "list_all is_uspace ws1" and "list_all is_uspace ws2"
  shows "strip (ws1 @ ''message'' @ ws2) = ''message''"
  using assms by (rule strip_padded) (simp_all add: is_uspace_def)

text \<open>
  C10. The loop compares the keyword itself with \<^verbatim>\<open>'message'\<close>; only the assertion of
  \<^verbatim>\<open>_receive_ipc_message\<close> strips it. An envelope whose first element is \<^verbatim>\<open>message\<close>
  with white space before or after it therefore passes \<^verbatim>\<open>_receive_ipc_message\<close>, and
  \<^verbatim>\<open>receive_message\<close> drops it: the call goes on as if the line had not been there,
  whatever the payload is.
\<close>

theorem padded_message_keyword_dropped:
  assumes "is_line l"
    and "json_loads (rstrip l) = Inr (JArr (JStr (ws1 @ ''message'' @ ws2) # payload))"
    and "list_all is_uspace ws1" and "list_all is_uspace ws2" and "ws1 @ ws2 \<noteq> []"
    and "decode = None \<or> decode = Some ''json''"
  shows "decode_line l = Inr (JStr (ws1 @ ''message'' @ ws2), JArr payload)
       \<and> receive_message decode (s\<lparr>fh_from_manager := l @ rest\<rparr>)
           = receive_message decode (s\<lparr>fh_from_manager := rest\<rparr>)"
proof -
  have st: "strip (ws1 @ ''message'' @ ws2) = ''message''"
    using assms(3,4) by (rule strip_padded_message)
  with assms(2) have dec: "decode_line l = Inr (JStr (ws1 @ ''message'' @ ws2), JArr payload)"
    by (simp add: decode_line_cases)
  from assms(5) have "JStr (ws1 @ ''message'' @ ws2) \<noteq> JStr ''message''"
    using padded_neq [of ws1 ws2 "''message''"] by simp
  with dec have "discarded l" by (simp add: discarded_def)
  with assms(1) have "wait_for_message (s\<lparr>fh_from_manager := l @ rest\<rparr>)
                        = wait_for_message (s\<lparr>fh_from_manager := rest\<rparr>)"
    by (rule wait_for_message_discarded)
  with dec assms(6) show ?thesis by (auto simp: receive_message_def)
qed

theorem padded_message_keyword_dropped_witness:
  \<open>is_line (''[" message ", 1, 2]'' @ [NL])
   \<and> json_loads (rstrip (''[" message ", 1, 2]'' @ [NL]))
        = Inr (JArr (JStr ('' '' @ ''message'' @ '' '') # [JInt 1, JInt 2]))
   \<and> list_all is_uspace '' '' \<and> '' '' @ '' '' \<noteq> []
   \<and> decode_line (''[" message ", 1, 2]'' @ [NL])
        = Inr (JStr ('' '' @ ''message'' @ '' ''), JArr [JInt 1, JInt 2])
   \<and> receive_message None
        ((init [])\<lparr>fh_from_manager := (''[" message ", 1, 2]'' @ [NL]) @ (''["message", "X"]'' @ [NL])\<rparr>)
      = receive_message None ((init [])\<lparr>fh_from_manager := ''["message", "X"]'' @ [NL]\<rparr>)
   \<and> receive_message None ((init [])\<lparr>fh_from_manager := ''["message", "X"]'' @ [NL]\<rparr>)
      = (Inr (JStr ''X''), init [])\<close>
proof -
  have h1: \<open>is_line (''[" message ", 1, 2]'' @ [NL])\<close> by code_simp
  have h2: \<open>json_loads (rstrip (''[" message ", 1, 2]'' @ [NL]))
              = Inr (JArr (JStr ('' '' @ ''message'' @ '' '') # [JInt 1, JInt 2]))\<close>
    by code_simp
  have h3: "list_all is_uspace '' ''" by code_simp
  have h5: "'' '' @ '' '' \<noteq> []" by simp
  have h6: "None = None \<or> None = Some ''json''" by simp
  have last: \<open>receive_message None ((init [])\<lparr>fh_from_manager := ''["message", "X"]'' @ [NL]\<rparr>)
      = (Inr (JStr ''X''), init [])\<close> by code_simp
  from padded_message_keyword_dropped [OF h1 h2 h3 h3 h5 h6] h1 h2 h3 h5 last
  show ?thesis by blast
qed

lemma length_skip_ws: "length (skip_ws s) \<le> length s"
  by (simp add: skip_ws_def length_dropWhile_le)

lemma skip_ws_Cons_length: "skip_ws s = d # ds \<Longrightarrow> length ds < length s"
  using length_skip_ws [of s] by simp

lemma cons_char_Some: "cons_char c res = Some (x, r) \<Longrightarrow> \<exists>y. res = Some (y, r)"
  by (auto simp: cons_char_def split: option.splits)

lemma scanstring_shorter: "scanstring s = Some (x, r) \<Longrightarrow> length r < length s"
proof (induction s arbitrary: x rule: length_induct)
  case (1 s)
  note IH = "1.IH" [rule_format]
  from "1.prems" obtain c cs where s: "s = c # cs" by (cases s) auto
  show ?case
  proof (cases "c = DQ")
    case True
    with "1.prems" s show ?thesis by simp
  next
    case notq: False
    show ?thesis
    proof (cases "c = BSL")
      case False
      with notq "1.prems" s obtain y where y: "scanstring cs = Some (y, r)"
        by (auto split: if_splits dest: cons_char_Some)
      from IH [OF _ y] s show ?thesis by simp
    next
      case True
      with "1.prems" s obtain e cs1 where cs: "cs = e # cs1" by (cases cs) auto
      show ?thesis
      proof (cases "e = CHR ''u''")
        case False
        with True cs s "1.prems" obtain y where y: "scanstring cs1 = Some (y, r)"
          by (auto split: option.splits dest: cons_char_Some)
        from IH [OF _ y] s cs show ?thesis by simp
      next
        case u: True
        with True cs s "1.prems" obtain h1 h2 h3 h4 cs2 y where
          h: "cs1 = h1 # h2 # h3 # h4 # cs2" and y: "scanstring cs2 = Some (y, r)"
          by (auto split: list.splits option.splits if_splits dest: cons_char_Some)
        from IH [OF _ y] s cs h show ?thesis by simp
      qed
    qed
  qed
qed

lemma match_integer_shorter: "match_integer s = Some (ds, r) \<Longrightarrow> length r < length s"
  using length_dropWhile_le [of is_digit "tl s"]
  by (cases s) (auto simp: match_integer_def split: if_splits)

lemma match_number_shorter: "match_number s = Some (v, r) \<Longrightarrow> length r < length s"
  by (cases s)
     (auto simp: match_number_def Let_def split: option.splits if_splits
           dest!: match_integer_shorter)

lemma take_eq_length: "take n s = t \<Longrightarrow> length t = n \<Longrightarrow> n \<le> length s"
  by (metis length_take min.cobounded1 min.commute)

lemma scan_atom_shorter: "scan_atom s = Some (v, r) \<Longrightarrow> length r < length s"
proof -
  assume a: "scan_atom s = Some (v, r)"
  consider "take 4 s = ''null''" "r = drop 4 s" | "take 4 s = ''true''" "r = drop 4 s"
    | "take 5 s = ''false''" "r = drop 5 s" | "match_number s = Some (v, r)"
    using a by (auto simp: scan_atom_def split: if_splits)
  then show ?thesis
  proof cases
    case 1
    from take_eq_length [OF 1(1)] 1(2) show ?thesis by simp
  next
    case 2
    from take_eq_length [OF 2(1)] 2(2) show ?thesis by simp
  next
    case 3
    from take_eq_length [OF 3(1)] 3(2) show ?thesis by simp
  next
    case 4
    then show ?thesis by (rule match_number_shorter)
  qed
qed


lemma skip_ws_Cons_le: "skip_ws s = d # ds \<Longrightarrow> Suc (length ds) \<le> length s"
  using length_skip_ws [of s] by simp

lemma parse_shorter_all:
  "(\<forall>s v r. parse_value n s = Some (v, r) \<longrightarrow> length r < length s) \<and>
   (\<forall>s vs r. parse_array_items n s = Some (vs, r) \<longrightarrow> length r < length s) \<and>
   (\<forall>s kvs r. parse_object_items n s = Some (kvs, r) \<longrightarrow> length r < length s)"
proof (induction n)
  case 0
  show ?case by (simp add: parse_value.simps parse_array_items.simps parse_object_items.simps)
next
  case (Suc n)
  then have IHv: "\<And>s v r. parse_value n s = Some (v, r) \<Longrightarrow> length r < length s"
    and IHa: "\<And>s vs r. parse_array_items n s = Some (vs, r) \<Longrightarrow> length r < length s"
    and IHo: "\<And>s kvs r. parse_object_items n s = Some (kvs, r) \<Longrightarrow> length r < length s"
    by blast+
  have v: "length r < length s" if p: "parse_value (Suc n) s = Some (v, r)" for s v r
  proof -
    from p obtain c cs where s: "s = c # cs" by (cases s) (auto simp: parse_value.simps)
    consider "c = DQ" | "c = CHR ''{''" | "c = CHR ''[''"
      | "c \<noteq> DQ" "c \<noteq> CHR ''{''" "c \<noteq> CHR ''[''" by blast
    then show ?thesis
    proof cases
      case 1
      with p s show ?thesis
        by (auto simp: parse_value_string split: option.splits dest: scanstring_shorter)
    next
      case 2
      with p s obtain d ds where d: "skip_ws cs = d # ds"
        by (cases "skip_ws cs") (auto simp: parse_value_object)
      show ?thesis
      proof (cases "d = CHR ''}''")
        case True
        with p s 2 d skip_ws_Cons_le [OF d] show ?thesis by (simp add: parse_value_object)
      next
        case False
        with p s 2 d obtain kvs where "parse_object_items n (d # ds) = Some (kvs, r)"
          by (auto simp: parse_value_object split: option.splits)
        from IHo [OF this] skip_ws_Cons_le [OF d] s show ?thesis by simp
      qed
    next
      case 3
      with p s obtain d ds where d: "skip_ws cs = d # ds"
        by (cases "skip_ws cs") (auto simp: parse_value_array)
      show ?thesis
      proof (cases "d = CHR '']''")
        case True
        with p s 3 d skip_ws_Cons_le [OF d] show ?thesis by (simp add: parse_value_array)
      next
        case False
        with p s 3 d obtain vs where "parse_array_items n (d # ds) = Some (vs, r)"
          by (auto simp: parse_value_array split: option.splits)
        from IHa [OF this] skip_ws_Cons_le [OF d] s show ?thesis by simp
      qed
    next
      case 4
      with p s have "scan_atom s = Some (v, r)" by (simp add: parse_value_atom)
      then show ?thesis by (rule scan_atom_shorter)
    qed
  qed
  have a: "length r < length s" if p: "parse_array_items (Suc n) s = Some (vs, r)" for s vs r
  proof -
    from p obtain x r1 where x: "parse_value n s = Some (x, r1)"
      by (auto simp: parse_array_items.simps split: option.splits)
    with p obtain d ds where d: "skip_ws r1 = d # ds"
      by (cases "skip_ws r1") (auto simp: parse_array_items.simps)
    from IHv [OF x] skip_ws_Cons_le [OF d] have ds: "length ds < length s" by simp
    show ?thesis
    proof (cases "d = CHR '']''")
      case True
      with p x d ds show ?thesis by (simp add: parse_array_items.simps)
    next
      case False
      with p x d obtain ws where "parse_array_items n (skip_ws ds) = Some (ws, r)"
        by (auto simp: parse_array_items.simps split: option.splits if_splits)
      from IHa [OF this] length_skip_ws [of ds] ds show ?thesis by simp
    qed
  qed
  have o: "length r < length s" if p: "parse_object_items (Suc n) s = Some (kvs, r)" for s kvs r
  proof -
    from p obtain cs where s: "s = DQ # cs"
      by (cases s) (auto simp: parse_object_items.simps split: if_splits)
    with p obtain key r0 where k: "scanstring cs = Some (key, r0)"
      by (auto simp: parse_object_items.simps split: option.splits)
    with p s obtain r1 where c: "skip_ws r0 = CHR '':'' # r1"
      by (cases "skip_ws r0") (auto simp: parse_object_items.simps split: if_splits)
    with p s k obtain x r2 where x: "parse_value n (skip_ws r1) = Some (x, r2)"
      by (auto simp: parse_object_items.simps split: option.splits)
    with p s k c obtain d ds where d: "skip_ws r2 = d # ds"
      by (cases "skip_ws r2") (auto simp: parse_object_items.simps)
    from scanstring_shorter [OF k] skip_ws_Cons_le [OF c] IHv [OF x] length_skip_ws [of r1]
      skip_ws_Cons_le [OF d] s
    have ds: "length ds < length s" by simp
    show ?thesis
    proof (cases "d = CHR ''}''")
      case True
      with p s k c x d ds show ?thesis by (simp add: parse_object_items.simps)
    next
      case False
      with p s k c x d obtain ws where "parse_object_items n (skip_ws ds) = Some (ws, r)"
        by (auto simp: parse_object_items.simps split: option.splits if_splits)
      from IHo [OF this] length_skip_ws [of ds] ds show ?thesis by simp
    qed
  qed
  from v a o show ?case by blast
qed


lemmas parse_value_shorter = parse_shorter_all [THEN conjunct1, rule_format]

lemma parse_fuel_all:
  "(\<forall>m s. 2 * length s < n \<longrightarrow> 2 * length s < m \<longrightarrow> parse_value n s = parse_value m s) \<and>
   (\<forall>m s. 2 * length s + 1 < n \<longrightarrow> 2 * length s + 1 < m \<longrightarrow>
      parse_array_items n s = parse_array_items m s) \<and>
   (\<forall>m s. 2 * length s < n \<longrightarrow> 2 * length s < m \<longrightarrow>
      parse_object_items n s = parse_object_items m s)"
proof (induction n)
  case 0
  show ?case by simp
next
  case (Suc n)
  then have IHv: "\<And>m s. 2 * length s < n \<Longrightarrow> 2 * length s < m \<Longrightarrow>
                    parse_value n s = parse_value m s"
    and IHa: "\<And>m s. 2 * length s + 1 < n \<Longrightarrow> 2 * length s + 1 < m \<Longrightarrow>
                    parse_array_items n s = parse_array_items m s"
    and IHo: "\<And>m s. 2 * length s < n \<Longrightarrow> 2 * length s < m \<Longrightarrow>
                    parse_object_items n s = parse_object_items m s"
    by blast+
  have v: "parse_value (Suc n) s = parse_value m s"
    if n: "2 * length s < Suc n" and m: "2 * length s < m" for m s
  proof -
    from m obtain m' where m': "m = Suc m'" by (cases m) auto
    show ?thesis
    proof (cases s)
      case Nil
      with m' show ?thesis by (simp add: parse_value.simps)
    next
      case (Cons c cs)
      have o: "parse_object_items n (d # ds) = parse_object_items m' (d # ds)"
        if "skip_ws cs = d # ds" for d ds
        using skip_ws_Cons_le [OF that] n m m' Cons by (intro IHo) simp_all
      have a: "parse_array_items n (d # ds) = parse_array_items m' (d # ds)"
        if "skip_ws cs = d # ds" for d ds
        using skip_ws_Cons_le [OF that] n m m' Cons by (intro IHa) simp_all
      consider "c = DQ" | "c = CHR ''{''" | "c = CHR ''[''"
        | "c \<noteq> DQ" "c \<noteq> CHR ''{''" "c \<noteq> CHR ''[''" by blast
      then show ?thesis
      proof cases
        case 1
        with Cons m' show ?thesis by (simp add: parse_value_string)
      next
        case 2
        with Cons m' o show ?thesis by (simp add: parse_value_object split: list.splits)
      next
        case 3
        with Cons m' a show ?thesis by (simp add: parse_value_array split: list.splits)
      next
        case 4
        with Cons m' show ?thesis by (simp add: parse_value_atom)
      qed
    qed
  qed
  have a: "parse_array_items (Suc n) s = parse_array_items m s"
    if n: "2 * length s + 1 < Suc n" and m: "2 * length s + 1 < m" for m s
  proof -
    from m obtain m' where m': "m = Suc m'" by (cases m) auto
    have e1: "parse_value n s = parse_value m' s"
      using n m m' by (intro IHv) simp_all
    have e2: "parse_array_items n (skip_ws ds) = parse_array_items m' (skip_ws ds)"
      if x: "parse_value m' s = Some (x, r)" and d: "skip_ws r = d # ds" for x r d ds
    proof -
      from x e1 have "parse_value n s = Some (x, r)" by simp
      from parse_value_shorter [OF this] skip_ws_Cons_le [OF d] length_skip_ws [of ds]
      have "length (skip_ws ds) + 2 \<le> length s" by simp
      with n m m' show ?thesis by (intro IHa) simp_all
    qed
    show ?thesis
      unfolding m' by (simp add: parse_array_items.simps e1 e2 split: option.splits list.splits)
  qed
  have o: "parse_object_items (Suc n) s = parse_object_items m s"
    if n: "2 * length s < Suc n" and m: "2 * length s < m" for m s
  proof -
    from m obtain m' where m': "m = Suc m'" by (cases m) auto
    have e1: "parse_value n (skip_ws r1) = parse_value m' (skip_ws r1)"
      if s: "s = q # cs" and k: "scanstring cs = Some (key, r0)" and c: "skip_ws r0 = col # r1"
      for q cs key r0 col r1
    proof -
      from scanstring_shorter [OF k] skip_ws_Cons_le [OF c] length_skip_ws [of r1] s
      have "length (skip_ws r1) + 3 \<le> length s" by simp
      with n m m' show ?thesis by (intro IHv) simp_all
    qed
    have e2: "parse_object_items n (skip_ws ds) = parse_object_items m' (skip_ws ds)"
      if s: "s = q # cs" and k: "scanstring cs = Some (key, r0)" and c: "skip_ws r0 = col # r1"
        and x: "parse_value m' (skip_ws r1) = Some (x, r2)" and d: "skip_ws r2 = d # ds"
      for q cs key r0 col r1 x r2 d ds
    proof -
      from scanstring_shorter [OF k] skip_ws_Cons_le [OF c] length_skip_ws [of r1]
        parse_value_shorter [OF x] skip_ws_Cons_le [OF d] length_skip_ws [of ds] s
      have "length (skip_ws ds) + 5 \<le> length s" by simp
      with n m m' show ?thesis by (intro IHo) simp_all
    qed
    show ?thesis
      unfolding m'
      by (simp add: parse_object_items.simps e1 e2 split: option.splits list.splits)
  qed
  from v a o show ?case by blast
qed

text \<open>
  The fuel that \<open>json_loads\<close> gives is enough: with any larger amount the parser returns
  the same result, so \<open>None\<close> is a verdict on the text and never the end of the fuel.
\<close>

lemma parse_value_fuel:
  "2 * length s < n \<Longrightarrow> parse_value n (skip_ws s) = parse_value (2 * length s + 2) (skip_ws s)"
  using length_skip_ws [of s]
  by (intro parse_fuel_all [THEN conjunct1, rule_format]) simp_all

end
